theory Spec2Isabelle
  imports Main
begin

section \<open>Token count estimator (src/tool/token.c)\<close>

text \<open>
  The input of every estimator is a C string. It is modelled by the list of its bytes
  before the terminating NUL, so \<open>strlen\<close> is \<open>length\<close>. Positions and lengths
  (\<open>i\<close>, \<open>len\<close>, \<open>pattern_len\<close>) are array indices that start at 0 and only grow;
  they are natural numbers. The counters of the program (\<open>tokens\<close>, \<open>words\<close>,
  \<open>chars\<close>, \<open>string_chars\<close>, \<open>code_indicators\<close>, \<open>punct_count\<close>) are C
  \<open>int\<close>s and are modelled by mathematical integers. None of them exceeds the length
  of the input (lemma \<open>counters_bounded\<close> for \<open>tokens\<close> and \<open>words\<close>), and the
  largest intermediate values are \<open>len + 3\<close> and the product of \<open>tokens\<close> with 1.2,
  so the model agrees with the 32-bit arithmetic of the program on every input shorter
  than \<open>2^30\<close> bytes. A list that contains the character NUL is no C string; the
  model treats NUL as it treats any other character that belongs to no class.
\<close>

subsection \<open>Character classes of ctype.h in the "C" locale\<close>

text \<open>
  The program never calls \<open>setlocale\<close>, so the classes are those of the "C" locale
  and contain ASCII characters only. A byte from 0x80 on belongs to no class.
\<close>

definition isspace :: "char \<Rightarrow> bool" where
  "isspace c = (let n = (of_char c :: nat) in n = 32 \<or> (9 \<le> n \<and> n \<le> 13))"

definition isalpha :: "char \<Rightarrow> bool" where
  "isalpha c = (let n = (of_char c :: nat) in (65 \<le> n \<and> n \<le> 90) \<or> (97 \<le> n \<and> n \<le> 122))"

definition isdigit :: "char \<Rightarrow> bool" where
  "isdigit c = (let n = (of_char c :: nat) in 48 \<le> n \<and> n \<le> 57)"

definition isalnum :: "char \<Rightarrow> bool" where
  "isalnum c = (isalpha c \<or> isdigit c)"

definition ispunct :: "char \<Rightarrow> bool" where
  "ispunct c = (let n = (of_char c :: nat) in
     (33 \<le> n \<and> n \<le> 47) \<or> (58 \<le> n \<and> n \<le> 64) \<or> (91 \<le> n \<and> n \<le> 96) \<or> (123 \<le> n \<and> n \<le> 126))"

subsection \<open>C integer division\<close>

text \<open>The operator \<open>/\<close> on \<open>int\<close> truncates towards zero.\<close>

definition c_div :: "int \<Rightarrow> int \<Rightarrow> int" where
  "c_div a b = sgn a * sgn b * (\<bar>a\<bar> div \<bar>b\<bar>)"

subsection \<open>The pattern table and \<open>is_code_pattern\<close>\<close>

definition patterns :: "string list" where
  "patterns =
    [''->'', ''++'', ''--'', ''=='', ''!='', ''<='', ''>='', ''&&'', ''||'',
     ''<<'', ''>>'', ''+='', ''-='', ''*='', ''/='', ''%='', ''^='', ''&='', ''|='',
     ''::'', ''//'', ''/*'', ''*/'', ''/**'', ''{'', ''}'', ''['', '']'', ''('', '')'',
     '';'']"

text \<open>
  \<open>strncmp (s1, s2, n) == 0\<close> on NUL-terminated strings: the first \<open>n\<close> bytes agree,
  or both strings end, equal, before that.
\<close>

definition strncmp_eq :: "string \<Rightarrow> string \<Rightarrow> nat \<Rightarrow> bool" where
  "strncmp_eq s1 s2 n = (take n s1 = take n s2)"

text \<open>The \<open>for\<close> loop of \<open>is_code_pattern\<close>, over the entries not yet tested.\<close>

fun match_patterns :: "string list \<Rightarrow> string \<Rightarrow> nat \<Rightarrow> nat \<Rightarrow> nat" where
  "match_patterns [] str pos len = 0"
| "match_patterns (p # ps) str pos len =
     (let pattern_len = length p in
      if pos + pattern_len \<le> len \<and> strncmp_eq (drop pos str) p pattern_len
      then pattern_len
      else match_patterns ps str pos len)"

definition is_code_pattern :: "string \<Rightarrow> nat \<Rightarrow> nat \<Rightarrow> nat" where
  "is_code_pattern str pos len = match_patterns patterns str pos len"

subsection \<open>The inner loops of \<open>estimate_tokens\<close>\<close>

record TokenStats =
  tokens :: int
  words :: int
  chars :: int

text \<open>
  \<open>while (i < len && P(text[i])) i++;\<close> occurs three times, for whitespace, for the
  characters of a word and for the characters of a number. The result is the final \<open>i\<close>.
\<close>

function run_end :: "(char \<Rightarrow> bool) \<Rightarrow> string \<Rightarrow> nat \<Rightarrow> nat" where
  "run_end P text i = (if i < length text \<and> P (text ! i) then run_end P text (i + 1) else i)"
  by pat_completeness auto
termination
  by (relation "measure (\<lambda>(P, text, i). length text - i)") auto

declare run_end.simps [simp del]

text \<open>
  The loop over the content of a string literal; the result is the final \<open>i\<close> and
  \<open>string_chars\<close>.
\<close>

function string_scan :: "char \<Rightarrow> string \<Rightarrow> nat \<Rightarrow> int \<Rightarrow> nat \<times> int" where
  "string_scan quote text i string_chars =
     (if i < length text \<and> text ! i \<noteq> quote then
        (if text ! i = CHR 0x5C \<and> i + 1 < length text
         then string_scan quote text (i + 2) (string_chars + 2)
         else string_scan quote text (i + 1) (string_chars + 1))
      else (i, string_chars))"
  by pat_completeness auto
termination
  by (relation "measure (\<lambda>(quote, text, i, string_chars). length text - i)") auto

declare string_scan.simps [simp del]

subsection \<open>\<open>estimate_tokens\<close>\<close>

text \<open>
  One iteration of the main \<open>while\<close> loop, entered with \<open>i < len\<close>, on the pair of
  \<open>i\<close> and \<open>stats\<close>.
\<close>

definition scan_step :: "string \<Rightarrow> nat \<times> TokenStats \<Rightarrow> nat \<times> TokenStats" where
  "scan_step text s =
     (let i = fst s; stats = snd s; len = length text; c = text ! i in
      if isspace c then (run_end isspace text i, stats)
      else
        let pattern_len = is_code_pattern text i len in
        if pattern_len > 0 then (i + pattern_len, stats\<lparr>tokens := tokens stats + 1\<rparr>)
        else if isalpha c then
          (let word_start = i;
               i = run_end (\<lambda>c. isalnum c \<or> c = CHR ''_'') text i;
               word_len = int i - int word_start;
               stats = stats\<lparr>words := words stats + 1\<rparr>
           in if word_len \<le> 4 then (i, stats\<lparr>tokens := tokens stats + 1\<rparr>)
              else if word_len \<le> 8 then (i, stats\<lparr>tokens := tokens stats + 2\<rparr>)
              else (i, stats\<lparr>tokens := tokens stats + c_div (word_len + 3) 4\<rparr>))
        else if isdigit c then
          (run_end (\<lambda>c. isdigit c \<or> c = CHR ''.'') text i, stats\<lparr>tokens := tokens stats + 1\<rparr>)
        else if c = CHR 0x22 \<or> c = CHR 0x27 then
          (let quote = c;
               i = i + 1;
               stats = stats\<lparr>tokens := tokens stats + 1\<rparr>;
               r = string_scan quote text i 0;
               i = fst r;
               string_chars = snd r;
               stats = stats\<lparr>tokens := tokens stats + c_div (string_chars + 3) 4\<rparr>
           in if i < len then (i + 1, stats\<lparr>tokens := tokens stats + 1\<rparr>) else (i, stats))
        else (i + 1, stats\<lparr>tokens := tokens stats + 1\<rparr>))"

text \<open>The loops only move forward and stop at the end of the input at the latest.\<close>

lemma run_end_ge: "i \<le> run_end P t i"
proof (induction P t i rule: run_end.induct)
  case (1 P t i)
  then show ?case
    unfolding run_end.simps [of P t i] by auto
qed

lemma run_end_le: "i \<le> length t \<Longrightarrow> run_end P t i \<le> length t"
proof (induction P t i rule: run_end.induct)
  case (1 P t i)
  then show ?case
    unfolding run_end.simps [of P t i] by auto
qed

lemma run_end_gt: "i < length t \<Longrightarrow> P (t ! i) \<Longrightarrow> i < run_end P t i"
  using run_end_ge [of "i + 1" P t] unfolding run_end.simps [of P t i] by auto

lemma string_scan_bounds:
  "i \<le> length t \<Longrightarrow>
   i \<le> fst (string_scan q t i sc) \<and> fst (string_scan q t i sc) \<le> length t \<and>
   snd (string_scan q t i sc) = sc + (int (fst (string_scan q t i sc)) - int i)"
proof (induction q t i sc rule: string_scan.induct)
  case (1 q t i sc)
  then show ?case
    unfolding string_scan.simps [of q t i sc] by auto
qed

lemma match_patterns_bound:
  "0 < match_patterns ps str pos len \<Longrightarrow> pos + match_patterns ps str pos len \<le> len"
  by (induction ps) (auto simp: Let_def split: if_splits)

lemma scan_step_advances:
  assumes "fst s < length t"
  shows "fst s < fst (scan_step t s) \<and> fst (scan_step t s) \<le> length t"
proof -
  obtain i stats where s: "s = (i, stats)" by (cases s)
  with assms have i: "i < length t" by simp
  note rg = run_end_gt [OF i] and rl = run_end_le [of i t] and
    ss = string_scan_bounds [of "i + 1" t "t ! i" 0] and
    mp = match_patterns_bound [of patterns t i "length t"]
  from i rg rl ss mp show ?thesis
    unfolding s scan_step_def is_code_pattern_def Let_def
    by (auto simp: isalnum_def)
qed

text \<open>The main loop \<open>while (i < len) { ... }\<close>.\<close>

function estimate_loop :: "string \<Rightarrow> nat \<times> TokenStats \<Rightarrow> nat \<times> TokenStats" where
  "estimate_loop text s =
     (if fst s < length text then estimate_loop text (scan_step text s) else s)"
  by pat_completeness auto
termination
proof (relation "measure (\<lambda>(t, s). length t - fst s)")
  show "wf (measure (\<lambda>(t, s). length t - fst s))" by simp
next
  fix t :: string and s :: "nat \<times> TokenStats"
  assume less: "fst s < length t"
  then have "fst s < fst (scan_step t s)"
    using scan_step_advances [of s t] by simp
  with less have "length t - fst (scan_step t s) < length t - fst s"
    by arith
  then show "((t, scan_step t s), (t, s)) \<in> measure (\<lambda>(t, s). length t - fst s)"
    by simp
qed

declare estimate_loop.simps [simp del]

definition estimate_tokens :: "string \<Rightarrow> TokenStats" where
  "estimate_tokens text =
     (let stats = \<lparr>tokens = 0, words = 0, chars = 0\<rparr>;
          len = length text;
          i = 0;
          stats = stats\<lparr>chars := int len\<rparr>
      in snd (estimate_loop text (i, stats)))"

subsection \<open>Single precision arithmetic\<close>

text \<open>
  \<open>estimate_tokens_advanced\<close> multiplies in the type \<open>float\<close>: the \<open>int\<close>
  \<open>basic.tokens\<close> is converted to \<open>float\<close>, multiplied by \<open>multiplier\<close>, and the
  product is converted to \<open>int\<close>. A finite value of IEEE 754 binary32 is the pair of
  an integer mantissa \<open>m\<close> and an exponent \<open>e\<close>, standing for \<open>m * 2^e\<close>, with a
  mantissa of at most 24 bits. An exact result is rounded to the nearest such value,
  ties to the even mantissa, and the product is rounded to single precision before it
  is converted (\<open>FLT_EVAL_METHOD\<close> 0). Exponent range and subnormal numbers play no
  role: the values of the program are 0 or lie between 0.85 and \<open>1.2 * 2^31\<close>.
\<close>

type_synonym float32 = "int \<times> int"

fun bit_length :: "nat \<Rightarrow> nat" where
  "bit_length n = (if n = 0 then 0 else Suc (bit_length (n div 2)))"

declare bit_length.simps [simp del]

definition round_half_even :: "nat \<Rightarrow> nat \<Rightarrow> nat" where
  "round_half_even m k =
     (let q = m div 2 ^ k; r = m mod 2 ^ k in
      if 2 * r > 2 ^ k \<or> (2 * r = 2 ^ k \<and> odd q) then q + 1 else q)"

definition f32_round :: "int \<times> int \<Rightarrow> float32" where
  "f32_round x =
     (let m = fst x; e = snd x; k = bit_length (nat \<bar>m\<bar>) - 24 in
      (sgn m * int (round_half_even (nat \<bar>m\<bar>) k), e + int k))"

definition f32_of_int :: "int \<Rightarrow> float32" where
  "f32_of_int n = f32_round (n, 0)"

definition f32_mul :: "float32 \<Rightarrow> float32 \<Rightarrow> float32" where
  "f32_mul a b = f32_round (fst a * fst b, snd a + snd b)"

text \<open>The conversion \<open>(int)\<close> truncates towards zero.\<close>

definition int_of_f32 :: "float32 \<Rightarrow> int" where
  "int_of_f32 x =
     (let m = fst x; e = snd x in
      if 0 \<le> e then m * 2 ^ nat e else sgn m * (\<bar>m\<bar> div 2 ^ nat (- e)))"

text \<open>
  The three values of \<open>multiplier\<close>: 1.0, and the single precision values nearest to
  1.2 (bit pattern 3F99999A) and to 0.85 (bit pattern 3F59999A).
\<close>

definition f32_1_0 :: float32 where
  "f32_1_0 = (1, 0)"

definition f32_1_2 :: float32 where
  "f32_1_2 = (10066330, - 23)"

definition f32_0_85 :: float32 where
  "f32_0_85 = (14260634, - 24)"

subsection \<open>\<open>estimate_tokens_advanced\<close>\<close>

text \<open>The \<open>for\<close> loop that counts \<open>code_indicators\<close>, from index \<open>i\<close> on.\<close>

function count_code_indicators :: "string \<Rightarrow> nat \<Rightarrow> int \<Rightarrow> int" where
  "count_code_indicators text i code_indicators =
     (if int i < int (length text) - 1 then
        count_code_indicators text (i + 1)
          (if (text ! i = CHR ''{'' \<or> text ! i = CHR ''}'' \<or> text ! i = CHR '';'' \<or>
               text ! i = CHR ''('' \<or> text ! i = CHR '')'' \<or> text ! i = CHR ''['' \<or>
               text ! i = CHR '']'') \<and>
              (i = 0 \<or> \<not> isalpha (text ! (i - 1)))
           then code_indicators + 1 else code_indicators)
      else code_indicators)"
  by pat_completeness auto
termination
  by (relation "measure (\<lambda>(text, i, code_indicators). length text - i)") auto

declare count_code_indicators.simps [simp del]

definition estimate_tokens_advanced :: "string \<Rightarrow> int" where
  "estimate_tokens_advanced text =
     (let basic = estimate_tokens text;
          multiplier = f32_1_0;
          code_indicators = count_code_indicators text 0 0;
          multiplier = (if code_indicators > c_div (words basic) 10 then f32_1_2 else multiplier);
          multiplier = (if code_indicators < c_div (words basic) 20 \<and> words basic > 10
                        then f32_0_85 else multiplier)
      in int_of_f32 (f32_mul (f32_of_int (tokens basic)) multiplier))"

subsection \<open>\<open>quick_token_estimate\<close>\<close>

text \<open>The \<open>for\<close> loop that counts \<open>punct_count\<close>, from index \<open>i\<close> on.\<close>

function count_punct :: "string \<Rightarrow> nat \<Rightarrow> int \<Rightarrow> int" where
  "count_punct text i punct_count =
     (if i < length text then
        count_punct text (i + 1) (if ispunct (text ! i) then punct_count + 1 else punct_count)
      else punct_count)"
  by pat_completeness auto
termination
  by (relation "measure (\<lambda>(text, i, punct_count). length text - i)") auto

declare count_punct.simps [simp del]

definition quick_token_estimate :: "string \<Rightarrow> int" where
  "quick_token_estimate text =
     (let len = int (length text) in
      if len = 0 then 0
      else
        let punct_count = count_punct text 0 0 in
        if punct_count > c_div len 20 then c_div (len + 2) 3 else c_div (len + 3) 4)"

subsection \<open>The content of a string literal, as the specification words it\<close>

text \<open>
  This function is not taken from the program. It follows the specification's
  description of the scan for the closing quote, on the characters that follow the
  opening quote: a backslash with a character after it is consumed together with that
  character and counts 2, any other character is consumed alone and counts 1, and the
  scan ends at the first quote character met or at the end of the input. The result is
  the number of positions consumed before the closing quote, the string character
  count, and whether a closing quote was found. The program's loop
  \<open>string_scan\<close> is compared with it below.
\<close>

fun string_content :: "char \<Rightarrow> string \<Rightarrow> nat \<times> int \<times> bool" where
  "string_content q [] = (0, 0, False)"
| "string_content q [c] = (if c = q then (0, 0, True) else (1, 1, False))"
| "string_content q (c # d # ds) =
     (if c = q then (0, 0, True)
      else if c = CHR 0x5C then
        (case string_content q ds of (n, k, closed) \<Rightarrow> (n + 2, k + 2, closed))
      else
        (case string_content q (d # ds) of (n, k, closed) \<Rightarrow> (n + 1, k + 1, closed)))"

subsection \<open>The states of the main loop\<close>

text \<open>
  \<open>scan_state text n\<close> is the pair of \<open>i\<close> and \<open>stats\<close> after \<open>n\<close> iterations of the
  main loop of \<open>estimate_tokens\<close>; once the loop has ended the state stays as it is.
\<close>

fun scan_state :: "string \<Rightarrow> nat \<Rightarrow> nat \<times> TokenStats" where
  "scan_state text 0 = (0, \<lparr>tokens = 0, words = 0, chars = int (length text)\<rparr>)"
| "scan_state text (Suc n) =
     (let s = scan_state text n in if fst s < length text then scan_step text s else s)"

declare scan_state.simps [simp del]

section \<open>Properties\<close>

subsection \<open>Auxiliary facts\<close>

lemma c_div_nonneg: "0 \<le> a \<Longrightarrow> 0 < b \<Longrightarrow> c_div a b = a div b"
  by (cases "a = 0") (simp_all add: c_div_def)

lemma run_end_takeWhile:
  "i \<le> length t \<Longrightarrow> run_end P t i = i + length (takeWhile P (drop i t))"
proof (induction P t i rule: run_end.induct)
  case (1 P t i)
  show ?case
  proof (cases "i < length t")
    case True
    then have d: "drop i t = t ! i # drop (Suc i) t"
      by (simp add: Cons_nth_drop_Suc)
    from True 1 d show ?thesis
      unfolding run_end.simps [of P t i] by auto
  next
    case False
    with 1 show ?thesis unfolding run_end.simps [of P t i] by auto
  qed
qed

lemma pattern_matches_iff:
  "i \<le> length t \<Longrightarrow> (i + length p \<le> length t \<and> strncmp_eq (drop i t) p (length p)) \<longleftrightarrow>
   take (length p) (drop i t) = p"
proof
  assume le: "i \<le> length t" and "take (length p) (drop i t) = p"
  then have "length (take (length p) (drop i t)) = length p" by simp
  with le have "i + length p \<le> length t" by simp
  with \<open>take (length p) (drop i t) = p\<close> show
    "i + length p \<le> length t \<and> strncmp_eq (drop i t) p (length p)"
    by (simp add: strncmp_eq_def)
qed (simp add: strncmp_eq_def)

lemma match_patterns_first:
  assumes "i \<le> length t"
  shows "k < length ps \<Longrightarrow> take (length (ps ! k)) (drop i t) = ps ! k \<Longrightarrow>
   \<forall>p\<in>set (take k ps). take (length p) (drop i t) \<noteq> p \<Longrightarrow>
   match_patterns ps t i (length t) = length (ps ! k)"
proof (induction ps arbitrary: k)
  case Nil
  then show ?case by simp
next
  case (Cons p ps)
  show ?case
  proof (cases k)
    case 0
    with Cons.prems assms show ?thesis
      by (simp add: Let_def pattern_matches_iff)
  next
    case (Suc k')
    with Cons.prems have "take (length p) (drop i t) \<noteq> p" by simp
    moreover from Suc Cons have "match_patterns ps t i (length t) = length (ps ! k')"
      by simp
    ultimately show ?thesis using Suc assms
      by (simp add: Let_def pattern_matches_iff)
  qed
qed

lemma match_patterns_none:
  assumes "i \<le> length t"
  shows "\<forall>p\<in>set ps. take (length p) (drop i t) \<noteq> p \<Longrightarrow>
    match_patterns ps t i (length t) = 0"
  using assms by (induction ps) (simp_all add: Let_def pattern_matches_iff)

lemma take_drop_hd:
  "i < length t \<Longrightarrow> p \<noteq> [] \<Longrightarrow> take (length p) (drop i t) = p \<Longrightarrow> hd p = t ! i"
  by (cases p) (auto simp: take_Suc_conv_app_nth Cons_nth_drop_Suc [symmetric])

lemma patterns_nonempty: "\<forall>p\<in>set patterns. p \<noteq> []"
  by (simp add: patterns_def)

lemma patterns_hd:
  "\<forall>p\<in>set patterns. \<not> isalpha (hd p) \<and> \<not> isdigit (hd p) \<and> \<not> isspace (hd p) \<and>
     hd p \<noteq> CHR 0x22 \<and> hd p \<noteq> CHR 0x27"
  by (simp add: patterns_def isalpha_def isdigit_def isspace_def)

lemma no_pattern_at:
  assumes "i < length t"
    and "isalpha (t ! i) \<or> isdigit (t ! i) \<or> isspace (t ! i) \<or> t ! i = CHR 0x22 \<or> t ! i = CHR 0x27"
  shows "is_code_pattern t i (length t) = 0"
proof -
  have "take (length p) (drop i t) \<noteq> p" if "p \<in> set patterns" for p
  proof
    assume "take (length p) (drop i t) = p"
    with assms(1) patterns_nonempty that have "hd p = t ! i"
      by (auto dest: take_drop_hd)
    with assms(2) patterns_hd that show False by auto
  qed
  with assms(1) show ?thesis
    by (simp add: is_code_pattern_def match_patterns_none)
qed

lemma isalpha_not_isspace: "isalpha c \<Longrightarrow> \<not> isspace c"
  by (auto simp: isalpha_def isspace_def Let_def)

lemma string_scan_content:
  assumes "j \<le> length t" and "string_content q (drop j t) = (n, k, closed)"
  shows "string_scan q t j sc = (j + n, sc + k) \<and> (closed \<longleftrightarrow> j + n < length t) \<and>
         (closed \<longrightarrow> t ! (j + n) = q)"
  using assms
proof (induction q t j sc arbitrary: n k closed rule: string_scan.induct)
  case (1 q t j sc)
  show ?case
  proof (cases "j < length t")
    case False
    with 1 show ?thesis
      unfolding string_scan.simps [of q t j sc] by auto
  next
    case lt: True
    then have d: "drop j t = t ! j # drop (Suc j) t"
      by (simp add: Cons_nth_drop_Suc)
    show ?thesis
    proof (cases "t ! j = q")
      case True
      with lt d 1 show ?thesis
        unfolding string_scan.simps [of q t j sc]
        by (cases "drop (Suc j) t") auto
    next
      case nq: False
      show ?thesis
      proof (cases "Suc j < length t")
        case False
        with lt have e: "drop (Suc j) t = []" by simp
        then have "string_content q (drop (j + 1) t) = (0, 0, False)" by simp
        with lt nq False have "string_scan q t (j + 1) (sc + 1) = (j + 1 + 0, sc + 1 + 0) \<and>
             (False \<longleftrightarrow> j + 1 + 0 < length t) \<and> (False \<longrightarrow> t ! (j + 1 + 0) = q)"
          by (intro "1.IH"(2)) auto
        with lt d e nq False "1.prems" show ?thesis
          unfolding string_scan.simps [of q t j sc] by auto
      next
        case lt2: True
        then have d2: "drop (Suc j) t = t ! Suc j # drop (Suc (Suc j)) t"
          by (simp add: Cons_nth_drop_Suc)
        show ?thesis
        proof (cases "t ! j = CHR 0x5C")
          case True
          obtain n' k' c' where r: "string_content q (drop (j + 2) t) = (n', k', c')"
            by (cases "string_content q (drop (j + 2) t)") auto
          with lt lt2 nq True have "string_scan q t (j + 2) (sc + 2) = (j + 2 + n', sc + 2 + k') \<and>
             (c' \<longleftrightarrow> j + 2 + n' < length t) \<and> (c' \<longrightarrow> t ! (j + 2 + n') = q)"
            by (intro "1.IH"(1)) auto
          with lt lt2 nq True d d2 r "1.prems" show ?thesis
            unfolding string_scan.simps [of q t j sc] by auto
        next
          case False
          obtain n' k' c' where r: "string_content q (drop (j + 1) t) = (n', k', c')"
            by (cases "string_content q (drop (j + 1) t)") auto
          with lt lt2 nq False have "string_scan q t (j + 1) (sc + 1) = (j + 1 + n', sc + 1 + k') \<and>
             (c' \<longleftrightarrow> j + 1 + n' < length t) \<and> (c' \<longrightarrow> t ! (j + 1 + n') = q)"
            by (intro "1.IH"(2)) auto
          with lt lt2 nq False d d2 r "1.prems" show ?thesis
            unfolding string_scan.simps [of q t j sc] by auto
        qed
      qed
    qed
  qed
qed

lemma quote_class:
  "c = CHR 0x22 \<or> c = CHR 0x27 \<Longrightarrow> \<not> isspace c \<and> \<not> isalpha c \<and> \<not> isdigit c"
  by (auto simp: isspace_def isalpha_def isdigit_def)

lemma count_punct_filter:
  "i \<le> length t \<Longrightarrow> count_punct t i pc = pc + int (length (filter ispunct (drop i t)))"
proof (induction t i pc rule: count_punct.induct)
  case (1 t i pc)
  show ?case
  proof (cases "i < length t")
    case True
    then have d: "drop i t = t ! i # drop (Suc i) t"
      by (simp add: Cons_nth_drop_Suc)
    from True 1 d show ?thesis
      unfolding count_punct.simps [of t i pc] by auto
  next
    case False
    with 1 show ?thesis
      unfolding count_punct.simps [of t i pc] by auto
  qed
qed

lemma c_div_4_nonneg: "0 \<le> a \<Longrightarrow> 0 \<le> c_div a 4"
  by (simp add: c_div_nonneg)

lemma scan_step_counters:
  assumes "fst s < length t"
  shows "tokens (snd s) \<le> tokens (snd (scan_step t s)) \<and>
         words (snd s) \<le> words (snd (scan_step t s)) \<and>
         chars (snd (scan_step t s)) = chars (snd s)"
proof -
  obtain i stats where s: "s = (i, stats)" by (cases s)
  with assms have i: "i + 1 \<le> length t" by simp
  from string_scan_bounds [OF i, of "t ! i" 0] run_end_ge [of i "\<lambda>c. isalnum c \<or> c = CHR ''_''" t]
  have "0 \<le> c_div (snd (string_scan (t ! i) t (i + 1) 0) + 3) 4"
    and "0 \<le> c_div (int (run_end (\<lambda>c. isalnum c \<or> c = CHR ''_'') t i) - int i + 3) 4"
    by (simp_all add: c_div_4_nonneg)
  then show ?thesis
    unfolding s scan_step_def Let_def by auto
qed

lemma scan_state_pos:
  "min n (length t) \<le> fst (scan_state t n) \<and> fst (scan_state t n) \<le> length t"
proof (induction n)
  case 0
  show ?case by (simp add: scan_state.simps)
next
  case (Suc n)
  show ?case
  proof (cases "fst (scan_state t n) < length t")
    case True
    from scan_step_advances [OF True] Suc True show ?thesis
      by (auto simp: Let_def scan_state.simps)
  next
    case False
    with Suc show ?thesis by (auto simp: Let_def scan_state.simps)
  qed
qed

lemma estimate_loop_scan_state:
  "estimate_loop t (scan_state t n) = estimate_loop t (scan_state t 0)"
proof (induction n)
  case 0
  show ?case by simp
next
  case (Suc n)
  have "estimate_loop t (scan_state t (Suc n)) = estimate_loop t (scan_state t n)"
  proof (cases "fst (scan_state t n) < length t")
    case True
    then show ?thesis
      unfolding estimate_loop.simps [of t "scan_state t n"]
      by (simp add: Let_def scan_state.simps)
  next
    case False
    then show ?thesis by (simp add: Let_def scan_state.simps)
  qed
  with Suc show ?case by simp
qed

lemma estimate_tokens_scan_state:
  "estimate_tokens t = snd (scan_state t (length t)) \<and> fst (scan_state t (length t)) = length t"
proof -
  from scan_state_pos [of "length t" t] have e: "fst (scan_state t (length t)) = length t"
    by simp
  then have "estimate_loop t (scan_state t (length t)) = scan_state t (length t)"
    by (subst estimate_loop.simps) simp
  with estimate_loop_scan_state [of t "length t"]
  have "estimate_loop t (scan_state t 0) = scan_state t (length t)" by simp
  then have "estimate_tokens t = snd (scan_state t (length t))"
    by (simp add: estimate_tokens_def scan_state.simps)
  with e show ?thesis by simp
qed

lemma scan_state_counters:
  "0 \<le> tokens (snd (scan_state t n)) \<and> 0 \<le> words (snd (scan_state t n)) \<and>
   chars (snd (scan_state t n)) = int (length t) \<and>
   tokens (snd (scan_state t n)) \<le> tokens (snd (scan_state t (Suc n))) \<and>
   words (snd (scan_state t n)) \<le> words (snd (scan_state t (Suc n)))"
proof (induction n)
  case 0
  show ?case
    using scan_step_counters [of "scan_state t 0" t]
    by (auto simp: Let_def scan_state.simps)
next
  case (Suc n)
  show ?case
    using Suc scan_step_counters [of "scan_state t n" t]
      scan_step_counters [of "scan_state t (Suc n)" t]
    by (auto simp: Let_def scan_state.simps)
qed

lemma count_code_indicators_filter:
  "count_code_indicators t i ci =
     ci + int (length (filter
       (\<lambda>j. (t ! j = CHR ''{'' \<or> t ! j = CHR ''}'' \<or> t ! j = CHR '';'' \<or>
             t ! j = CHR ''('' \<or> t ! j = CHR '')'' \<or> t ! j = CHR ''['' \<or>
             t ! j = CHR '']'') \<and>
            (j = 0 \<or> \<not> isalpha (t ! (j - 1))))
       [i..<length t - 1]))"
proof (induction t i ci rule: count_code_indicators.induct)
  case (1 t i ci)
  show ?case
  proof (cases "int i < int (length t) - 1")
    case True
    then have "i < length t - 1" by simp
    then have u: "[i..<length t - 1] = i # [i + 1..<length t - 1]"
      by (simp add: upt_conv_Cons)
    from True 1 show ?thesis
      unfolding count_code_indicators.simps [of t i ci] u by simp
  next
    case False
    then have "[i..<length t - 1] = []" by simp
    with False show ?thesis
      unfolding count_code_indicators.simps [of t i ci] by simp
  qed
qed

lemma words_nonneg: "0 \<le> words (estimate_tokens t)"
  using scan_state_counters [of t "length t"] estimate_tokens_scan_state [of t] by simp

lemma multiplier_exclusive:
  assumes "0 \<le> w"
  shows "c_div w 20 \<le> c_div w 10 \<and> \<not> (ci > c_div w 10 \<and> ci < c_div w 20 \<and> w > 10)"
proof -
  from assms have "c_div w 20 = w div 20" "c_div w 10 = w div 10"
    by (simp_all add: c_div_nonneg)
  moreover from assms have "w div 20 \<le> w div 10"
    by (simp add: zdiv_mono2)
  ultimately show ?thesis by simp
qed


lemma bit_length_0: "bit_length 0 = 0"
  by (subst bit_length.simps) simp

lemma bit_length_numeral:
  "bit_length (numeral v) = Suc (bit_length (numeral v div 2))"
  by (subst bit_length.simps) simp

lemma bit_length_1: "bit_length (Suc 0) = Suc 0"
  by (subst bit_length.simps) (simp add: bit_length_0)

lemmas f32_eval =
  f32_of_int_def f32_mul_def f32_round_def round_half_even_def int_of_f32_def
  f32_1_0_def f32_1_2_def f32_0_85_def bit_length_0 bit_length_1 bit_length_numeral

text \<open>
  Every iteration of the main loop adds at most as many tokens and words as it consumes
  characters, so both counters stay below the length of the input.
\<close>

lemma c_div_4_le: "1 \<le> a \<Longrightarrow> c_div (a + 3) 4 \<le> a"
  by (simp add: c_div_nonneg)

lemma c_div_4_le0: "0 \<le> a \<Longrightarrow> c_div (a + 3) 4 \<le> a"
  by (simp add: c_div_nonneg)

lemma scan_step_growth:
  assumes "fst s < length t"
  shows "tokens (snd (scan_step t s)) - tokens (snd s) \<le> int (fst (scan_step t s)) - int (fst s) \<and>
         words (snd (scan_step t s)) - words (snd s) \<le> int (fst (scan_step t s)) - int (fst s)"
proof -
  obtain i stats where s: "s = (i, stats)" by (cases s)
  with assms have i: "i < length t" and i1: "i + 1 \<le> length t" by simp_all
  note ss = string_scan_bounds [OF i1, of "t ! i" 0]
  then have sn: "snd (string_scan (t ! i) t (i + 1) 0) =
      int (fst (string_scan (t ! i) t (i + 1) 0)) - int (i + 1)"
    and "0 \<le> snd (string_scan (t ! i) t (i + 1) 0)"
    by simp_all
  then have "c_div (snd (string_scan (t ! i) t (i + 1) 0) + 3) 4
      \<le> snd (string_scan (t ! i) t (i + 1) 0)"
    by (intro c_div_4_le0)
  with sn have q: "c_div (snd (string_scan (t ! i) t (i + 1) 0) + 3) 4
      \<le> int (fst (string_scan (t ! i) t (i + 1) 0)) - int (i + 1)"
    by (simp only:)
  have w: "c_div (int (run_end (\<lambda>c. isalnum c \<or> c = CHR ''_'') t i) - int i + 3) 4
      \<le> int (run_end (\<lambda>c. isalnum c \<or> c = CHR ''_'') t i) - int i"
    if "isalpha (t ! i)"
    using run_end_gt [OF i, of "\<lambda>c. isalnum c \<or> c = CHR ''_''"] that
    by (intro c_div_4_le) (simp add: isalnum_def)
  from i q w ss run_end_gt [OF i, of "\<lambda>c. isalnum c \<or> c = CHR ''_''"]
    run_end_gt [OF i, of "\<lambda>c. isdigit c \<or> c = CHR ''.''"] run_end_ge [of i isspace t]
  show ?thesis
    unfolding s scan_step_def Let_def
    by (auto simp: isalnum_def)
qed

lemma scan_state_bounded:
  "tokens (snd (scan_state t n)) \<le> int (fst (scan_state t n)) \<and>
   words (snd (scan_state t n)) \<le> int (fst (scan_state t n))"
proof (induction n)
  case 0
  show ?case by (simp add: scan_state.simps)
next
  case (Suc n)
  show ?case
  proof (cases "fst (scan_state t n) < length t")
    case True
    from scan_step_growth [OF True] Suc True show ?thesis
      by (simp add: scan_state.simps Let_def)
  next
    case False
    with Suc show ?thesis by (simp add: scan_state.simps Let_def)
  qed
qed

lemma counters_bounded:
  "tokens (estimate_tokens t) \<le> int (length t) \<and> words (estimate_tokens t) \<le> int (length t)"
  using scan_state_bounded [of t "length t"] estimate_tokens_scan_state [of t] by simp

text \<open>
  The constants of \<open>multiplier\<close> are the double precision literals 1.2 and 0.85
  rounded to single precision, the conversion of an integer below \<open>2^24\<close> to single
  precision is exact, and so is its product with 1.0.
\<close>

lemma f32_round_literals:
  "f32_round (5404319552844595, - 52) = f32_1_2"
  "f32_round (7656119366529843, - 53) = f32_0_85"
  by (simp_all add: f32_eval)

lemma bit_length_le: "n < 2 ^ k \<Longrightarrow> bit_length n \<le> k"
proof (induction k arbitrary: n)
  case 0
  then show ?case by (simp add: bit_length_0)
next
  case (Suc k)
  show ?case
  proof (cases "n = 0")
    case True
    then show ?thesis by (simp add: bit_length_0)
  next
    case False
    from Suc.prems have "n div 2 < 2 ^ k" by simp
    then have "bit_length (n div 2) \<le> k" by (rule Suc.IH)
    with False show ?thesis by (subst bit_length.simps) simp
  qed
qed

lemma f32_of_int_exact: "\<bar>n\<bar> < 2 ^ 24 \<Longrightarrow> f32_of_int n = (n, 0)"
proof -
  assume "\<bar>n\<bar> < 2 ^ 24"
  then have "nat \<bar>n\<bar> < 2 ^ 24" by simp
  then have "bit_length (nat \<bar>n\<bar>) \<le> 24" by (rule bit_length_le)
  then show ?thesis
    by (simp add: f32_of_int_def f32_round_def round_half_even_def Let_def mult_sgn_abs)
qed

lemma multiply_by_one: "\<bar>n\<bar> < 2 ^ 24 \<Longrightarrow> int_of_f32 (f32_mul (f32_of_int n) f32_1_0) = n"
  using f32_of_int_exact [of n]
  by (simp add: f32_mul_def f32_1_0_def int_of_f32_def f32_of_int_def)

text \<open>
  The single precision product of a count below \<open>2^19\<close> with 1.2 or 0.85, truncated,
  is the truncated exact product: the constant exceeds 6/5 (17/20) by less than
  \<open>2^-24\<close>, and rounding the product to 24 bits moves it by less than the distance to
  the next integer.
\<close>

lemma round_half_even_div:
  fixes P q B k :: nat
  assumes B: "0 < B" and lo: "q * (2 ^ k * B) \<le> P"
    and hi: "2 * P + 2 ^ k < 2 * ((q + 1) * (2 ^ k * B))"
  shows "round_half_even P k div B = q"
proof -
  define A :: nat where "A = 2 ^ k"
  define d where "d = P div A"
  define r where "r = P mod A"
  define R where "R = round_half_even P k"
  have A: "0 < A" by (simp add: A_def)
  have P: "P = d * A + r" by (simp add: d_def r_def)
  have "(q * B) * A \<le> P" using lo by (simp only: A_def mult_ac)
  then have lo': "q * B \<le> d"
    unfolding d_def using A by (simp add: less_eq_div_iff_mult_less_eq)
  have hi': "2 * P + A < 2 * (((q + 1) * B) * A)"
    using hi by (simp only: A_def mult_ac)
  have cases: "R = d \<or> (R = d + 1 \<and> A \<le> 2 * r)"
    unfolding R_def round_half_even_def Let_def d_def r_def A_def by auto
  have up: "R < (q + 1) * B"
  proof (rule ccontr)
    assume "\<not> R < (q + 1) * B"
    then have ge: "(q + 1) * B \<le> R" by simp
    from cases show False
    proof
      assume "R = d"
      with ge have "((q + 1) * B) * A \<le> d * A" by (simp only: mult_le_mono1)
      with P hi' show False by linarith
    next
      assume c: "R = d + 1 \<and> A \<le> 2 * r"
      with ge have "((q + 1) * B) * A \<le> (d + 1) * A" by (simp only: mult_le_mono1)
      then have "((q + 1) * B) * A \<le> d * A + A" by (simp add: algebra_simps)
      with P hi' c show False by linarith
    qed
  qed
  from cases lo' have "q * B \<le> R" by auto
  then have "B * q \<le> R" by (simp only: mult_ac)
  moreover from up have "R < B * Suc q" by (simp only: mult_ac Suc_eq_plus1)
  ultimately have "R div B = q" by (rule div_nat_eqI)
  then show ?thesis by (simp add: R_def)
qed


lemma f32_scale:
  fixes n M q s :: nat
  assumes n: "n < 2 ^ 24" and P: "n * M < 2 ^ 43" and s: "19 < s"
    and lo: "q * 2 ^ s \<le> n * M"
    and hi: "2 * (n * M) + 2 ^ 19 < 2 * ((q + 1) * 2 ^ s)"
  shows "int_of_f32 (f32_mul (f32_of_int (int n)) (int M, - int s)) = int q"
proof -
  define k where "k = bit_length (n * M) - 24"
  define R where "R = round_half_even (n * M) k"
  from P have "bit_length (n * M) \<le> 43" by (rule bit_length_le)
  then have k: "k \<le> 19" by (simp add: k_def)
  with s have ks: "k < s" by simp
  then have pw: "(2::nat) ^ k * 2 ^ (s - k) = 2 ^ s"
    by (simp flip: power_add)
  from k have "(2::nat) ^ k \<le> 2 ^ 19"
    by (intro power_increasing) simp_all
  with hi have hi': "2 * (n * M) + 2 ^ k < 2 * ((q + 1) * (2 ^ k * 2 ^ (s - k)))"
    unfolding pw by linarith
  from lo have lo': "q * (2 ^ k * 2 ^ (s - k)) \<le> n * M"
    unfolding pw .
  have "round_half_even (n * M) k div 2 ^ (s - k) = q"
    by (rule round_half_even_div [OF _ lo' hi']) simp
  then have Rq: "R div 2 ^ (s - k) = q" by (simp add: R_def)
  from n have "\<bar>int n\<bar> < 2 ^ 24" by simp
  then have conv: "f32_of_int (int n) = (int n, 0)" by (rule f32_of_int_exact)
  have nat_abs: "nat \<bar>int n * int M\<bar> = n * M"
    by (simp add: nat_mult_distrib abs_mult)
  have sg: "sgn (int n * int M) * int R = int R"
  proof (cases "n * M = 0")
    case True
    then have "R = round_half_even 0 k" by (simp only: R_def)
    then have "R = 0" by (simp add: round_half_even_def)
    then show ?thesis by simp
  next
    case False
    then have "0 < int n * int M" by (simp add: zero_less_mult_iff)
    then show ?thesis by simp
  qed
  have mul: "f32_mul (f32_of_int (int n)) (int M, - int s) = (int R, - int s + int k)"
    unfolding conv f32_mul_def f32_round_def Let_def fst_conv snd_conv nat_abs
    using sg by (simp add: k_def R_def)
  from ks have e: "\<not> 0 \<le> - int s + int k" and ne: "nat (- (- int s + int k)) = s - k"
    by simp_all
  have "int_of_f32 (int R, - int s + int k) = int (R div 2 ^ (s - k))"
    unfolding int_of_f32_def Let_def fst_conv snd_conv using e ne
    by (cases "R = 0") (simp_all add: zdiv_int)
  with mul Rq show ?thesis by simp
qed

lemma scale_1_2:
  assumes "0 \<le> n" and "n < 2 ^ 19"
  shows "int_of_f32 (f32_mul (f32_of_int n) f32_1_2) = (6 * n) div 5"
proof -
  define m where "m = nat n"
  define q where "q = (6 * m) div 5"
  from assms have n: "n = int m" and m: "m < 524288" by (simp_all add: m_def)
  have "6 * m = 5 * q + (6 * m) mod 5" unfolding q_def by simp
  moreover have "(6 * m) mod 5 < 5" by simp
  ultimately have q: "5 * q \<le> 6 * m" "6 * m < 5 * q + 5" by linarith+
  have "int_of_f32 (f32_mul (f32_of_int (int m)) (int 10066330, - int 23)) = int q"
  proof (rule f32_scale)
    show "m < 2 ^ 24" using m by simp
    show "m * 10066330 < 2 ^ 43" using m by simp
    show "(19::nat) < 23" by simp
    show "q * 2 ^ 23 \<le> m * 10066330" using q by simp
    show "2 * (m * 10066330) + 2 ^ 19 < 2 * ((q + 1) * 2 ^ 23)" using q m by simp
  qed
  moreover have "int q = (6 * n) div 5" by (simp add: q_def n zdiv_int)
  ultimately show ?thesis by (simp add: n f32_1_2_def)
qed

lemma scale_0_85:
  assumes "0 \<le> n" and "n < 2 ^ 19"
  shows "int_of_f32 (f32_mul (f32_of_int n) f32_0_85) = (17 * n) div 20"
proof -
  define m where "m = nat n"
  define q where "q = (17 * m) div 20"
  from assms have n: "n = int m" and m: "m < 524288" by (simp_all add: m_def)
  have "17 * m = 20 * q + (17 * m) mod 20" unfolding q_def by simp
  moreover have "(17 * m) mod 20 < 20" by simp
  ultimately have q: "20 * q \<le> 17 * m" "17 * m < 20 * q + 20" by linarith+
  have "int_of_f32 (f32_mul (f32_of_int (int m)) (int 14260634, - int 24)) = int q"
  proof (rule f32_scale)
    show "m < 2 ^ 24" using m by simp
    show "m * 14260634 < 2 ^ 43" using m by simp
    show "(19::nat) < 24" by simp
    show "q * 2 ^ 24 \<le> m * 14260634" using q by simp
    show "2 * (m * 14260634) + 2 ^ 19 < 2 * ((q + 1) * 2 ^ 24)" using q m by simp
  qed
  moreover have "int q = (17 * n) div 20" by (simp add: q_def n zdiv_int)
  ultimately show ?thesis by (simp add: n f32_0_85_def)
qed


lemma tokens_nonneg: "0 \<le> tokens (estimate_tokens t)"
  using scan_state_counters [of t "length t"] estimate_tokens_scan_state [of t] by simp

section \<open>The claims\<close>

subsection \<open>Letter runs\<close>

text \<open>
  Claim C1. When an iteration of the main loop starts at a letter, it consumes the
  maximal run of alphanumeric characters and underscores that starts there (of length
  \<open>n\<close>), adds 1 to \<open>words\<close>, and adds to \<open>tokens\<close> 1 if \<open>n \<le> 4\<close>, 2 if
  \<open>5 \<le> n \<le> 8\<close>, and \<open>(n + 3) / 4\<close> otherwise. A letter is never whitespace and never
  starts an entry of the pattern table, so nothing more is assumed. The input
  \<open>hello\<close> gives 1 word and 2 tokens.
\<close>

theorem letter_run:
  fixes t :: string and i :: nat and st :: TokenStats
  defines "n \<equiv> length (takeWhile (\<lambda>c. isalnum c \<or> c = CHR ''_'') (drop i t))"
  assumes "i < length t" and "isalpha (t ! i)"
  shows "scan_step t (i, st) =
           (i + n, st\<lparr>words := words st + 1,
                      tokens := tokens st +
                        (if n \<le> 4 then 1 else if n \<le> 8 then 2 else (int n + 3) div 4)\<rparr>) \<and>
         estimate_tokens ''hello'' = \<lparr>tokens = 2, words = 1, chars = 5\<rparr>"
proof -
  from assms have nsp: "\<not> isspace (t ! i)" and nop: "is_code_pattern t i (length t) = 0"
    by (simp_all add: isalpha_not_isspace no_pattern_at)
  have re: "run_end (\<lambda>c. isalnum c \<or> c = CHR ''_'') t i = i + n"
    using assms by (simp add: run_end_takeWhile)
  have cd: "c_div (int n + 3) 4 = (int n + 3) div 4"
    by (rule c_div_nonneg) simp_all
  have step: "scan_step t (i, st) =
           (i + n, st\<lparr>words := words st + 1,
                      tokens := tokens st +
                        (if n \<le> 4 then 1 else if n \<le> 8 then 2 else (int n + 3) div 4)\<rparr>)"
    using assms(3) nsp nop re cd by (simp add: scan_step_def Let_def)
  have hello: "estimate_tokens ''hello'' = \<lparr>tokens = 2, words = 1, chars = 5\<rparr>"
    by code_simp
  from step hello show ?thesis by simp
qed

theorem letter_run_witness:
  "0 < length ''ab_1 c'' \<and> isalpha (''ab_1 c'' ! 0) \<and>
   scan_step ''ab_1 c'' (0, \<lparr>tokens = 0, words = 0, chars = 6\<rparr>) =
     (4, \<lparr>tokens = 1, words = 1, chars = 6\<rparr>)"
  using letter_run [of 0 "''ab_1 c''" "\<lparr>tokens = 0, words = 0, chars = 6\<rparr>"]
  by (simp add: isalpha_def isalnum_def isdigit_def)

subsection \<open>The pattern table\<close>

text \<open>
  Claim C2. Where the main loop tests the pattern table (at a character that is not
  whitespace), the first entry, in the order of the table, whose text occurs at the
  position decides: \<open>is_code_pattern\<close> returns its length, one token is counted and
  the position moves on by that length. Hence the entry \<open>/*\<close> shadows the later and
  longer entry \<open>/**\<close>: where \<open>/**\<close> occurs, the result is 2.
\<close>

theorem first_pattern_wins:
  assumes "i < length t" and "\<not> isspace (t ! i)" and "k < length patterns"
    and "take (length (patterns ! k)) (drop i t) = patterns ! k"
    and "\<forall>p\<in>set (take k patterns). take (length p) (drop i t) \<noteq> p"
  shows "is_code_pattern t i (length t) = length (patterns ! k) \<and>
         scan_step t (i, st) = (i + length (patterns ! k), st\<lparr>tokens := tokens st + 1\<rparr>) \<and>
         (take 3 (drop i t) = ''/**'' \<longrightarrow> is_code_pattern t i (length t) = 2)"
proof -
  from assms have m: "is_code_pattern t i (length t) = length (patterns ! k)"
    by (simp add: is_code_pattern_def match_patterns_first)
  from assms(3) patterns_nonempty have "patterns ! k \<noteq> []"
    using nth_mem by blast
  with m assms(2) have s: "scan_step t (i, st) =
      (i + length (patterns ! k), st\<lparr>tokens := tokens st + 1\<rparr>)"
    by (simp add: scan_step_def Let_def)
  have sh: "is_code_pattern t i (length t) = 2" if "take 3 (drop i t) = ''/**''"
  proof -
    from that have "take 2 (take 3 (drop i t)) = ''/*''" by simp
    then have t2: "take 2 (drop i t) = ''/*''" by simp
    then have t2': "take (Suc (Suc 0)) (drop i t) = ''/*''"
      by (simp add: numeral_2_eq_2)
    have k: "(21::nat) < length patterns" by (simp add: patterns_def)
    have hit: "take (length (patterns ! 21)) (drop i t) = patterns ! 21"
      using t2' by (simp add: patterns_def)
    have miss: "\<forall>p\<in>set (take 21 patterns). take (length p) (drop i t) \<noteq> p"
      using t2' by (simp add: patterns_def)
    from assms(1) have "i \<le> length t" by simp
    from match_patterns_first [OF this k hit miss]
    have "match_patterns patterns t i (length t) = length (patterns ! 21)" .
    then show ?thesis by (simp add: is_code_pattern_def patterns_def)
  qed
  from m s sh show ?thesis by simp
qed


theorem first_pattern_wins_witness:
  "0 < length ''/**'' \<and> \<not> isspace (''/**'' ! 0) \<and> 21 < length patterns \<and>
   take (length (patterns ! 21)) (drop 0 ''/**'') = patterns ! 21 \<and>
   list_all (\<lambda>p. take (length p) (drop 0 ''/**'') \<noteq> p) (take 21 patterns) \<and>
   is_code_pattern ''/**'' 0 (length ''/**'') = 2 \<and>
   scan_step ''/**'' (0, \<lparr>tokens = 0, words = 0, chars = 3\<rparr>) =
     (2, \<lparr>tokens = 1, words = 0, chars = 3\<rparr>)"
  using first_pattern_wins [of 0 "''/**''" 21 "\<lparr>tokens = 0, words = 0, chars = 3\<rparr>"]
  by (simp add: patterns_def isspace_def)

subsection \<open>Quoted strings\<close>

text \<open>
  Claim C3. When an iteration of the main loop starts at a double or single quote, it
  counts 1 token for the opening quote and scans the content as \<open>string_content\<close>
  describes it (a backslash followed by a character consumes both and counts 2, any
  other character consumes one position and counts 1, up to the same quote character or
  the end of the input). With \<open>n\<close> positions consumed and string character count
  \<open>k\<close>, it adds \<open>(k + 3) / 4\<close> tokens for the content, and one more token, moving
  past the closing quote, exactly when a closing quote was found before the end of the
  input. A quote character is not whitespace, not a letter, not a digit and starts no
  entry of the pattern table, so no earlier rule consumes it.
\<close>

theorem quoted_string:
  assumes "i < length t" and "t ! i = CHR 0x22 \<or> t ! i = CHR 0x27"
    and "string_content (t ! i) (drop (i + 1) t) = (n, k, closed)"
  shows "string_scan (t ! i) t (i + 1) 0 = (i + 1 + n, k) \<and>
         scan_step t (i, st) =
           (i + 1 + n + (if closed then 1 else 0),
            st\<lparr>tokens := tokens st + 1 + (k + 3) div 4 + (if closed then 1 else 0)\<rparr>) \<and>
         (closed \<longleftrightarrow> i + 1 + n < length t) \<and>
         (closed \<longrightarrow> t ! (i + 1 + n) = t ! i)"
proof -
  from assms(1) have le: "i + 1 \<le> length t" by simp
  from string_scan_content [OF le assms(3), of 0]
  have sc: "string_scan (t ! i) t (i + 1) 0 = (i + 1 + n, k)"
    and cl: "closed \<longleftrightarrow> i + 1 + n < length t"
    and cq: "closed \<longrightarrow> t ! (i + 1 + n) = t ! i"
    by simp_all
  from string_scan_bounds [OF le, of "t ! i" 0] sc have "0 \<le> k" by simp
  then have cd: "c_div (k + 3) 4 = (k + 3) div 4"
    by (intro c_div_nonneg) simp_all
  from assms(1,2) have np: "is_code_pattern t i (length t) = 0"
    by (intro no_pattern_at) auto
  from quote_class [OF assms(2)] np sc cl cd assms(2)
  have "scan_step t (i, st) =
           (i + 1 + n + (if closed then 1 else 0),
            st\<lparr>tokens := tokens st + 1 + (k + 3) div 4 + (if closed then 1 else 0)\<rparr>)"
    by (simp add: scan_step_def Let_def)
  with sc cl cq show ?thesis by simp
qed

theorem quoted_string_witness:
  "0 < length [CHR 0x22, CHR ''a'', CHR 0x5C, CHR 0x22, CHR ''b'', CHR 0x22, CHR ''c''] \<and>
   [CHR 0x22, CHR ''a'', CHR 0x5C, CHR 0x22, CHR ''b'', CHR 0x22, CHR ''c''] ! 0 = CHR 0x22 \<and>
   string_content (CHR 0x22) [CHR ''a'', CHR 0x5C, CHR 0x22, CHR ''b'', CHR 0x22, CHR ''c''] =
     (4, 4, True) \<and>
   string_scan (CHR 0x22)
     [CHR 0x22, CHR ''a'', CHR 0x5C, CHR 0x22, CHR ''b'', CHR 0x22, CHR ''c''] 1 0 = (5, 4) \<and>
   scan_step [CHR 0x22, CHR ''a'', CHR 0x5C, CHR 0x22, CHR ''b'', CHR 0x22, CHR ''c'']
     (0, \<lparr>tokens = 0, words = 0, chars = 7\<rparr>) = (6, \<lparr>tokens = 3, words = 0, chars = 7\<rparr>)"
  using quoted_string [of 0 "[CHR 0x22, CHR ''a'', CHR 0x5C, CHR 0x22, CHR ''b'', CHR 0x22, CHR ''c'']"
      4 4 True "\<lparr>tokens = 0, words = 0, chars = 7\<rparr>"]
  by simp

subsection \<open>The advanced estimator\<close>

text \<open>
  Claim C4. \<open>code_indicators\<close> is the number of positions from 0 to \<open>length - 2\<close>
  (the last character is never examined) that hold one of the characters
  \<open>{ } ; ( ) [ ]\<close> and are not preceded by a letter. The multiplier is 1.0, replaced by
  1.2 if \<open>code_indicators > words / 10\<close>, replaced after that by 0.85 if
  \<open>code_indicators < words / 20\<close> and \<open>words > 10\<close>. The result is the single
  precision product of \<open>tokens\<close> and the multiplier, truncated towards zero. For fewer
  than \<open>2^19\<close> tokens, and so for every input shorter than \<open>2^19\<close> characters, this is
  the exact product truncated towards zero: \<open>tokens\<close> itself for 1.0,
  \<open>6 * tokens div 5\<close> for 1.2 and \<open>17 * tokens div 20\<close> for 0.85.
\<close>

theorem advanced_estimate:
  fixes t :: string
  defines "ci \<equiv> int (length (filter
       (\<lambda>j. t ! j \<in> set ''{};()[]'' \<and> (j = 0 \<or> \<not> isalpha (t ! (j - 1))))
       [0..<length t - 1]))"
    and "w \<equiv> words (estimate_tokens t)"
  shows "count_code_indicators t 0 0 = ci \<and>
         estimate_tokens_advanced t =
           int_of_f32 (f32_mul (f32_of_int (tokens (estimate_tokens t)))
             (if ci < w div 20 \<and> w > 10 then f32_0_85
              else if ci > w div 10 then f32_1_2
              else f32_1_0)) \<and>
         (length t < 2 ^ 19 \<longrightarrow> tokens (estimate_tokens t) < 2 ^ 19) \<and>
         (tokens (estimate_tokens t) < 2 ^ 19 \<longrightarrow>
            estimate_tokens_advanced t =
              (if ci < w div 20 \<and> w > 10 then (17 * tokens (estimate_tokens t)) div 20
               else if ci > w div 10 then (6 * tokens (estimate_tokens t)) div 5
               else tokens (estimate_tokens t)))"
proof -
  have c: "count_code_indicators t 0 0 = ci"
    unfolding ci_def count_code_indicators_filter [of t 0 0]
    by simp
  have "0 \<le> w" unfolding w_def by (rule words_nonneg)
  then have d: "c_div w 10 = w div 10" "c_div w 20 = w div 20"
    by (simp_all add: c_div_nonneg)
  have f: "estimate_tokens_advanced t =
           int_of_f32 (f32_mul (f32_of_int (tokens (estimate_tokens t)))
             (if ci < w div 20 \<and> w > 10 then f32_0_85
              else if ci > w div 10 then f32_1_2
              else f32_1_0))"
    unfolding estimate_tokens_advanced_def Let_def c w_def [symmetric] d by simp
  have b: "tokens (estimate_tokens t) < 2 ^ 19" if "length t < 2 ^ 19"
    using counters_bounded [of t] that by simp
  have r: "estimate_tokens_advanced t =
              (if ci < w div 20 \<and> w > 10 then (17 * tokens (estimate_tokens t)) div 20
               else if ci > w div 10 then (6 * tokens (estimate_tokens t)) div 5
               else tokens (estimate_tokens t))"
    if less: "tokens (estimate_tokens t) < 2 ^ 19"
  proof -
    note nn = tokens_nonneg [of t]
    from nn less have "\<bar>tokens (estimate_tokens t)\<bar> < 2 ^ 24" by simp
    then have one: "int_of_f32 (f32_mul (f32_of_int (tokens (estimate_tokens t))) f32_1_0) =
        tokens (estimate_tokens t)"
      by (rule multiply_by_one)
    from scale_1_2 [OF nn less] scale_0_85 [OF nn less] one show ?thesis
      unfolding f by simp
  qed
  from c f b r show ?thesis by blast
qed

theorem advanced_estimate_witness:
  "tokens (estimate_tokens ''(a){b};'') = 7 \<and>
   count_code_indicators ''(a){b};'' 0 0 = 2 \<and>
   estimate_tokens_advanced ''(a){b};'' = 8 \<and>
   tokens (estimate_tokens ''a a a a a a a a a a a a a a a a a a a a'') = 20 \<and>
   count_code_indicators ''a a a a a a a a a a a a a a a a a a a a'' 0 0 = 0 \<and>
   estimate_tokens_advanced ''a a a a a a a a a a a a a a a a a a a a'' = 17"
proof -
  note th1 = advanced_estimate [of "''(a){b};''"]
  have e1: "estimate_tokens ''(a){b};'' = \<lparr>tokens = 7, words = 2, chars = 7\<rparr>"
    by code_simp
  have c1: "count_code_indicators ''(a){b};'' 0 0 = 2"
    by code_simp
  note i1 = trans [OF th1 [THEN conjunct1, symmetric] c1]
  from th1 [unfolded i1 e1] have r1: "estimate_tokens_advanced ''(a){b};'' = 8"
    by simp
  note th2 = advanced_estimate [of "''a a a a a a a a a a a a a a a a a a a a''"]
  have e2: "estimate_tokens ''a a a a a a a a a a a a a a a a a a a a'' =
      \<lparr>tokens = 20, words = 20, chars = 39\<rparr>"
    by code_simp
  have c2: "count_code_indicators ''a a a a a a a a a a a a a a a a a a a a'' 0 0 = 0"
    by code_simp
  note i2 = trans [OF th2 [THEN conjunct1, symmetric] c2]
  from th2 [unfolded i2 e2]
  have r2: "estimate_tokens_advanced ''a a a a a a a a a a a a a a a a a a a a'' = 17"
    by simp
  from e1 c1 r1 e2 c2 r2 show ?thesis by simp
qed

subsection \<open>The quick estimator\<close>

text \<open>
  Claim C5. \<open>quick_token_estimate\<close> returns 0 on the input of length 0. Otherwise,
  with \<open>punct_count\<close> the number of punctuation characters of the whole input, it
  returns \<open>(length + 2) / 3\<close> when \<open>punct_count > length / 20\<close> and
  \<open>(length + 3) / 4\<close> when not. An input of 100 characters, 10 of them punctuation,
  gives 34.
\<close>

theorem quick_estimate:
  "quick_token_estimate t =
     (if length t = 0 then 0
      else if int (length (filter ispunct t)) > int (length t) div 20
      then (int (length t) + 2) div 3
      else (int (length t) + 3) div 4) \<and>
   (length t = 100 \<and> length (filter ispunct t) = 10 \<longrightarrow> quick_token_estimate t = 34)"
proof -
  have cp: "count_punct t 0 0 = int (length (filter ispunct t))"
    by (simp add: count_punct_filter)
  have d: "c_div (int (length t)) 20 = int (length t) div 20"
    "c_div (int (length t) + 2) 3 = (int (length t) + 2) div 3"
    "c_div (int (length t) + 3) 4 = (int (length t) + 3) div 4"
    by (simp_all add: c_div_nonneg)
  have gen: "quick_token_estimate t =
     (if length t = 0 then 0
      else if int (length (filter ispunct t)) > int (length t) div 20
      then (int (length t) + 2) div 3
      else (int (length t) + 3) div 4)"
    by (simp add: quick_token_estimate_def Let_def cp d)
  then have "quick_token_estimate t = 34" if "length t = 100" "length (filter ispunct t) = 10"
    using that by simp
  with gen show ?thesis by blast
qed

theorem quick_estimate_witness:
  "length (replicate 90 CHR ''a'' @ replicate 10 CHR ''!'') = 100 \<and>
   length (filter ispunct (replicate 90 CHR ''a'' @ replicate 10 CHR ''!'')) = 10 \<and>
   quick_token_estimate (replicate 90 CHR ''a'' @ replicate 10 CHR ''!'') = 34"
  using quick_estimate [of "replicate 90 CHR ''a'' @ replicate 10 CHR ''!''"]
  by (simp add: ispunct_def)

subsection \<open>Invariants of the statistics\<close>

text \<open>
  Claim C6. The \<open>chars\<close> field of the result of \<open>estimate_tokens\<close> is the length of
  the input. \<open>tokens\<close> and \<open>words\<close> are at least 0 in the result and in every state
  of the main loop, and no iteration of the loop decreases either of them: this holds
  from one state of the scan to the next, and for an iteration started in any state
  whatever with \<open>i\<close> inside the input. The result is the state reached after as many
  iterations as the input has characters.
\<close>

theorem stats_invariants:
  "chars (estimate_tokens t) = int (length t) \<and>
   0 \<le> tokens (estimate_tokens t) \<and> 0 \<le> words (estimate_tokens t) \<and>
   estimate_tokens t = snd (scan_state t (length t)) \<and>
   (\<forall>n. 0 \<le> tokens (snd (scan_state t n)) \<and> 0 \<le> words (snd (scan_state t n)) \<and>
        tokens (snd (scan_state t n)) \<le> tokens (snd (scan_state t (Suc n))) \<and>
        words (snd (scan_state t n)) \<le> words (snd (scan_state t (Suc n)))) \<and>
   (\<forall>s. fst s < length t \<longrightarrow>
        tokens (snd s) \<le> tokens (snd (scan_step t s)) \<and>
        words (snd s) \<le> words (snd (scan_step t s)))"
proof -
  have e: "estimate_tokens t = snd (scan_state t (length t))"
    by (simp add: estimate_tokens_scan_state)
  have n: "0 \<le> tokens (snd (scan_state t n)) \<and> 0 \<le> words (snd (scan_state t n)) \<and>
        tokens (snd (scan_state t n)) \<le> tokens (snd (scan_state t (Suc n))) \<and>
        words (snd (scan_state t n)) \<le> words (snd (scan_state t (Suc n)))" for n
    using scan_state_counters [of t n] by blast
  have s: "tokens (snd s) \<le> tokens (snd (scan_step t s)) \<and>
        words (snd s) \<le> words (snd (scan_step t s))" if "fst s < length t" for s
    using scan_step_counters [OF that] by blast
  from scan_state_counters [of t "length t"] e
  have "chars (estimate_tokens t) = int (length t)"
    and "0 \<le> tokens (estimate_tokens t)" and "0 \<le> words (estimate_tokens t)"
    by simp_all
  with e n s show ?thesis by blast
qed

theorem stats_invariants_witness:
  "chars (estimate_tokens ''ab 1'') = 4 \<and>
   fst (0 :: nat, \<lparr>tokens = 0, words = 0, chars = 4\<rparr>) < length ''ab 1'' \<and>
   tokens \<lparr>tokens = 0, words = 0, chars = 4\<rparr>
     \<le> tokens (snd (scan_step ''ab 1'' (0, \<lparr>tokens = 0, words = 0, chars = 4\<rparr>))) \<and>
   words \<lparr>tokens = 0, words = 0, chars = 4\<rparr>
     \<le> words (snd (scan_step ''ab 1'' (0, \<lparr>tokens = 0, words = 0, chars = 4\<rparr>))) \<and>
   tokens (snd (scan_state ''ab 1'' 1)) \<le> tokens (snd (scan_state ''ab 1'' (Suc 1))) \<and>
   estimate_tokens ''ab 1'' = snd (scan_state ''ab 1'' 4)"
proof -
  note th = stats_invariants [of "''ab 1''"]
  have len: "length ''ab 1'' = 4" by simp
  from th have "chars (estimate_tokens ''ab 1'') = int (length ''ab 1'')"
    and "estimate_tokens ''ab 1'' = snd (scan_state ''ab 1'' (length ''ab 1''))"
    by blast+
  then have c: "chars (estimate_tokens ''ab 1'') = 4"
    and e: "estimate_tokens ''ab 1'' = snd (scan_state ''ab 1'' 4)"
    unfolding len by simp_all
  from th have n: "tokens (snd (scan_state ''ab 1'' 1)) \<le> tokens (snd (scan_state ''ab 1'' (Suc 1)))"
    by blast
  have l: "fst (0 :: nat, \<lparr>tokens = 0, words = 0, chars = 4\<rparr>) < length ''ab 1''"
    by simp
  with th have "tokens (snd (0 :: nat, \<lparr>tokens = 0, words = 0, chars = 4\<rparr>))
       \<le> tokens (snd (scan_step ''ab 1'' (0, \<lparr>tokens = 0, words = 0, chars = 4\<rparr>))) \<and>
     words (snd (0 :: nat, \<lparr>tokens = 0, words = 0, chars = 4\<rparr>))
       \<le> words (snd (scan_step ''ab 1'' (0, \<lparr>tokens = 0, words = 0, chars = 4\<rparr>)))"
    by blast
  with c e n l show ?thesis by simp
qed

subsection \<open>The empty input\<close>

text \<open>
  Claim C7. On the empty input \<open>estimate_tokens\<close> returns 0 tokens, 0 words and 0
  characters, \<open>quick_token_estimate\<close> returns 0 and \<open>estimate_tokens_advanced\<close>
  returns 0.
\<close>

theorem empty_input:
  "estimate_tokens [] = \<lparr>tokens = 0, words = 0, chars = 0\<rparr> \<and>
   quick_token_estimate [] = 0 \<and> estimate_tokens_advanced [] = 0"
proof -
  have l: "estimate_loop [] (0, st) = (0, st)" for st
    by (subst estimate_loop.simps) simp
  have e: "estimate_tokens [] = \<lparr>tokens = 0, words = 0, chars = 0\<rparr>"
    by (simp add: estimate_tokens_def l)
  have q: "quick_token_estimate [] = 0"
    by (simp add: quick_token_estimate_def)
  have c: "count_code_indicators [] 0 0 = 0"
    by (subst count_code_indicators.simps) simp
  have b: "bit_length 0 = 0"
    by (subst bit_length.simps) simp
  have m: "f32_mul (f32_of_int 0) f32_1_0 = (0, 0)"
    by (simp add: f32_1_0_def f32_of_int_def f32_mul_def f32_round_def round_half_even_def b)
  have "estimate_tokens_advanced [] = 0"
    by (simp add: estimate_tokens_advanced_def e c c_div_def m int_of_f32_def)
  with e q show ?thesis by simp
qed

subsection \<open>Termination\<close>

text \<open>
  Claim C8. Every iteration of the main loop of \<open>estimate_tokens\<close> that starts inside
  the input moves \<open>i\<close> strictly forward and not beyond the end of the input. So after
  \<open>n\<close> iterations \<open>i\<close> is at least \<open>n\<close> or the loop has ended, the loop ends after
  at most as many iterations as the input has characters, and \<open>estimate_tokens\<close>
  returns the state reached then. Every function of the model is total: each loop
  of the three estimators is defined with a termination proof (the distance of \<open>i\<close> to
  the end of the input decreases), and no function has an error result.
\<close>

theorem scan_terminates:
  "(\<forall>s. fst s < length t \<longrightarrow>
        fst s < fst (scan_step t s) \<and> fst (scan_step t s) \<le> length t) \<and>
   (\<forall>n. min n (length t) \<le> fst (scan_state t n) \<and> fst (scan_state t n) \<le> length t) \<and>
   fst (scan_state t (length t)) = length t \<and>
   estimate_tokens t = snd (scan_state t (length t))"
proof -
  have a: "fst s < fst (scan_step t s) \<and> fst (scan_step t s) \<le> length t"
    if "fst s < length t" for s
    using that by (rule scan_step_advances)
  have b: "min n (length t) \<le> fst (scan_state t n) \<and> fst (scan_state t n) \<le> length t" for n
    by (rule scan_state_pos)
  from a b estimate_tokens_scan_state [of t] show ?thesis by blast
qed

theorem scan_terminates_witness:
  "fst (1 :: nat, \<lparr>tokens = 1, words = 1, chars = 4\<rparr>)
     < length [CHR ''a'', CHR 0x22, CHR ''b'', CHR 0x5C] \<and>
   fst (scan_step [CHR ''a'', CHR 0x22, CHR ''b'', CHR 0x5C]
          (1, \<lparr>tokens = 1, words = 1, chars = 4\<rparr>)) = 4 \<and>
   fst (scan_state [CHR ''a'', CHR 0x22, CHR ''b'', CHR 0x5C] 4) = 4 \<and>
   estimate_tokens [CHR ''a'', CHR 0x22, CHR ''b'', CHR 0x5C] =
     snd (scan_state [CHR ''a'', CHR 0x22, CHR ''b'', CHR 0x5C] 4)"
proof -
  note th = scan_terminates [of "[CHR ''a'', CHR 0x22, CHR ''b'', CHR 0x5C]"]
  have len: "length [CHR ''a'', CHR 0x22, CHR ''b'', CHR 0x5C] = 4" by simp
  have l: "fst (1 :: nat, \<lparr>tokens = 1, words = 1, chars = 4\<rparr>)
     < length [CHR ''a'', CHR 0x22, CHR ''b'', CHR 0x5C]" by simp
  with th have "fst (1 :: nat, \<lparr>tokens = 1, words = 1, chars = 4\<rparr>)
      < fst (scan_step [CHR ''a'', CHR 0x22, CHR ''b'', CHR 0x5C]
          (1, \<lparr>tokens = 1, words = 1, chars = 4\<rparr>)) \<and>
    fst (scan_step [CHR ''a'', CHR 0x22, CHR ''b'', CHR 0x5C]
          (1, \<lparr>tokens = 1, words = 1, chars = 4\<rparr>))
      \<le> length [CHR ''a'', CHR 0x22, CHR ''b'', CHR 0x5C]"
    by blast
  moreover have "scan_step [CHR ''a'', CHR 0x22, CHR ''b'', CHR 0x5C]
      (1, \<lparr>tokens = 1, words = 1, chars = 4\<rparr>) = (4, \<lparr>tokens = 3, words = 1, chars = 4\<rparr>)"
    by code_simp
  moreover from th have "fst (scan_state [CHR ''a'', CHR 0x22, CHR ''b'', CHR 0x5C]
        (length [CHR ''a'', CHR 0x22, CHR ''b'', CHR 0x5C])) =
      length [CHR ''a'', CHR 0x22, CHR ''b'', CHR 0x5C]"
    and "estimate_tokens [CHR ''a'', CHR 0x22, CHR ''b'', CHR 0x5C] =
     snd (scan_state [CHR ''a'', CHR 0x22, CHR ''b'', CHR 0x5C]
       (length [CHR ''a'', CHR 0x22, CHR ''b'', CHR 0x5C]))"
    by blast+
  then have "fst (scan_state [CHR ''a'', CHR 0x22, CHR ''b'', CHR 0x5C] 4) = 4"
    and "estimate_tokens [CHR ''a'', CHR 0x22, CHR ''b'', CHR 0x5C] =
     snd (scan_state [CHR ''a'', CHR 0x22, CHR ''b'', CHR 0x5C] 4)"
    unfolding len by simp_all
  ultimately show ?thesis using l by simp
qed

subsection \<open>The two conditions on the multiplier exclude each other\<close>

text \<open>
  Claim C9. With \<open>words\<close> at least 0, \<open>words / 20 \<le> words / 10\<close>, so
  \<open>code_indicators > words / 10\<close> and \<open>code_indicators < words / 20\<close> never hold
  together: the second assignment to the multiplier never overwrites the first, and
  the multiplier is the one a chain of alternatives selects, 1.2 first, 0.85 second,
  1.0 otherwise.
\<close>

theorem multiplier_choice:
  fixes t :: string
  defines "w \<equiv> words (estimate_tokens t)"
    and "ci \<equiv> count_code_indicators t 0 0"
  shows "0 \<le> w \<and> c_div w 20 \<le> c_div w 10 \<and>
         \<not> (ci > c_div w 10 \<and> ci < c_div w 20 \<and> w > 10) \<and>
         estimate_tokens_advanced t =
           int_of_f32 (f32_mul (f32_of_int (tokens (estimate_tokens t)))
             (if ci > c_div w 10 then f32_1_2
              else if ci < c_div w 20 \<and> w > 10 then f32_0_85
              else f32_1_0))"
proof -
  have w: "0 \<le> w" unfolding w_def by (rule words_nonneg)
  note ex = multiplier_exclusive [OF w, of ci]
  have "estimate_tokens_advanced t =
           int_of_f32 (f32_mul (f32_of_int (tokens (estimate_tokens t)))
             (if ci > c_div w 10 then f32_1_2
              else if ci < c_div w 20 \<and> w > 10 then f32_0_85
              else f32_1_0))"
    unfolding estimate_tokens_advanced_def Let_def w_def [symmetric] ci_def [symmetric]
    using ex by auto
  with w ex show ?thesis by simp
qed

theorem multiplier_choice_witness:
  "words (estimate_tokens ''a;b'') = 2 \<and> count_code_indicators ''a;b'' 0 0 = 0 \<and>
   c_div 2 20 \<le> c_div 2 10 \<and> estimate_tokens_advanced ''a;b'' = 3"
proof -
  have e: "estimate_tokens ''a;b'' = \<lparr>tokens = 3, words = 2, chars = 3\<rparr>"
    by code_simp
  have c: "count_code_indicators ''a;b'' 0 0 = 0"
    by code_simp
  have d: "c_div 2 10 = 0" "c_div 2 20 = 0"
    by (simp_all add: c_div_def)
  have m: "int_of_f32 (f32_mul (f32_of_int 3) f32_1_0) = 3"
    by (simp add: f32_eval)
  from multiplier_choice [of "''a;b''"] show ?thesis
    by (simp add: e c d m)
qed

subsection \<open>A backslash at the end of the input\<close>

text \<open>
  Claim C10. When the loop over the content of a string literal stands at a backslash
  that is the last character of the input, the backslash is consumed alone and counts
  1, and the loop ends at the end of the input. The iteration of the main loop that
  opened the literal then ends there with no token for a closing quote. The loop never
  moves \<open>i\<close> beyond the end of the input.
\<close>

theorem trailing_backslash:
  assumes "j + 1 = length t" and "t ! j = CHR 0x5C" and "q = CHR 0x22 \<or> q = CHR 0x27"
  shows "string_scan q t j sc = (length t, sc + 1) \<and>
         (\<forall>i st. i < length t \<and> t ! i = q \<and> 0 \<le> sc \<and>
             string_scan q t (i + 1) 0 = string_scan q t j sc \<longrightarrow>
             scan_step t (i, st) =
               (length t, st\<lparr>tokens := tokens st + 1 + (sc + 1 + 3) div 4\<rparr>)) \<and>
         (\<forall>i k. i \<le> length t \<longrightarrow> fst (string_scan q t i k) \<le> length t)"
proof -
  from assms(3) have q: "q \<noteq> CHR 0x5C" by auto
  have "string_scan q t (j + 1) (sc + 1) = (j + 1, sc + 1)"
    using assms(1) by (subst string_scan.simps) simp
  with assms(1,2) q have a: "string_scan q t j sc = (length t, sc + 1)"
    unfolding string_scan.simps [of q t j sc] by simp
  have b: "scan_step t (i, st) =
      (length t, st\<lparr>tokens := tokens st + 1 + (sc + 1 + 3) div 4\<rparr>)"
    if "i < length t" "t ! i = q" "0 \<le> sc" "string_scan q t (i + 1) 0 = string_scan q t j sc"
    for i st
  proof -
    from that(1,2) assms(3) have np: "is_code_pattern t i (length t) = 0"
      by (intro no_pattern_at) auto
    from that(3) have cd: "c_div (sc + 1 + 3) 4 = (sc + 1 + 3) div 4"
      by (intro c_div_nonneg) simp_all
    from that(2) assms(3) have "t ! i = CHR 0x22 \<or> t ! i = CHR 0x27" by simp
    from quote_class [OF this] np that(2,4) a cd assms(3) show ?thesis
      by (simp add: scan_step_def Let_def)
  qed
  have c: "fst (string_scan q t i k) \<le> length t" if "i \<le> length t" for i k
    using string_scan_bounds [OF that] by simp
  from a b c show ?thesis by blast
qed

theorem trailing_backslash_witness:
  "3 + 1 = length [CHR 0x22, CHR ''a'', CHR ''b'', CHR 0x5C] \<and>
   [CHR 0x22, CHR ''a'', CHR ''b'', CHR 0x5C] ! 3 = CHR 0x5C \<and>
   string_scan (CHR 0x22) [CHR 0x22, CHR ''a'', CHR ''b'', CHR 0x5C] 3 2 = (4, 3) \<and>
   string_scan (CHR 0x22) [CHR 0x22, CHR ''a'', CHR ''b'', CHR 0x5C] (0 + 1) 0 =
     string_scan (CHR 0x22) [CHR 0x22, CHR ''a'', CHR ''b'', CHR 0x5C] 3 2 \<and>
   scan_step [CHR 0x22, CHR ''a'', CHR ''b'', CHR 0x5C] (0, \<lparr>tokens = 0, words = 0, chars = 4\<rparr>) =
     (4, \<lparr>tokens = 2, words = 0, chars = 4\<rparr>)"
proof -
  have h: "3 + 1 = length [CHR 0x22, CHR ''a'', CHR ''b'', CHR 0x5C]"
    "[CHR 0x22, CHR ''a'', CHR ''b'', CHR 0x5C] ! 3 = CHR 0x5C"
    "CHR 0x22 = CHR 0x22 \<or> CHR 0x22 = CHR 0x27"
    by simp_all
  note th = trailing_backslash [OF h, of 2]
  have r: "string_scan (CHR 0x22) [CHR 0x22, CHR ''a'', CHR ''b'', CHR 0x5C] (0 + 1) 0 =
     string_scan (CHR 0x22) [CHR 0x22, CHR ''a'', CHR ''b'', CHR 0x5C] 3 2"
    by code_simp
  from th have s: "string_scan (CHR 0x22) [CHR 0x22, CHR ''a'', CHR ''b'', CHR 0x5C] 3 2 =
      (length [CHR 0x22, CHR ''a'', CHR ''b'', CHR 0x5C], 2 + 1)"
    by blast
  have "0 < length [CHR 0x22, CHR ''a'', CHR ''b'', CHR 0x5C] \<and>
    [CHR 0x22, CHR ''a'', CHR ''b'', CHR 0x5C] ! 0 = CHR 0x22 \<and> (0::int) \<le> 2 \<and>
    string_scan (CHR 0x22) [CHR 0x22, CHR ''a'', CHR ''b'', CHR 0x5C] (0 + 1) 0 =
     string_scan (CHR 0x22) [CHR 0x22, CHR ''a'', CHR ''b'', CHR 0x5C] 3 2"
    using r by simp
  with th have "scan_step [CHR 0x22, CHR ''a'', CHR ''b'', CHR 0x5C]
      (0, \<lparr>tokens = 0, words = 0, chars = 4\<rparr>) =
    (length [CHR 0x22, CHR ''a'', CHR ''b'', CHR 0x5C],
      \<lparr>tokens = 0, words = 0, chars = 4\<rparr>
        \<lparr>tokens := tokens \<lparr>tokens = 0, words = 0, chars = 4\<rparr> + 1 + (2 + 1 + 3) div 4\<rparr>)"
    by blast
  with h r s show ?thesis by simp
qed

end
